theory Spec2Isabelle
  imports Main "HOL-Library.Sublist"
begin

section \<open>Text: the characters and string methods the parser uses\<close>

text \<open>
  A Python \<open>str\<close> is a sequence of code points. The model is a \<open>string\<close>, whose
  characters are the code points below 256; the classes below are Python's on that range
  (\<open>str.isspace\<close> and the regular expression class \<open>\s\<close> agree there, \<open>\d\<close> is
  the ten ASCII digits, \<open>str.isdigit\<close> also accepts the three superscript digits, and
  \<open>\w\<close> is \<open>str.isalnum\<close> plus the underscore).
\<close>

definition code :: "char \<Rightarrow> int" where
  "code c = of_char c"

definition between :: "int \<Rightarrow> int \<Rightarrow> int \<Rightarrow> bool" where
  "between lo hi n \<longleftrightarrow> lo \<le> n \<and> n \<le> hi"

definition is_space :: "char \<Rightarrow> bool" where
  "is_space c \<longleftrightarrow> (let n = code c in
     between 9 13 n \<or> between 28 32 n \<or> n = 133 \<or> n = 160)"

definition re_digit :: "char \<Rightarrow> bool" where
  "re_digit c \<longleftrightarrow> between 48 57 (code c)"

definition isdigit_chr :: "char \<Rightarrow> bool" where
  "isdigit_chr c \<longleftrightarrow> (let n = code c in
     between 48 57 n \<or> n = 178 \<or> n = 179 \<or> n = 185)"

definition is_word :: "char \<Rightarrow> bool" where
  "is_word c \<longleftrightarrow> (let n = code c in
     between 48 57 n \<or> between 65 90 n \<or> n = 95 \<or> between 97 122 n \<or>
     n = 170 \<or> n = 178 \<or> n = 179 \<or> n = 181 \<or> n = 185 \<or> n = 186 \<or>
     between 188 190 n \<or> between 192 214 n \<or> between 216 246 n \<or> between 248 255 n)"

definition lower_chr :: "char \<Rightarrow> char" where
  "lower_chr c = (let n = code c in
     if between 65 90 n \<or> (between 192 222 n \<and> n \<noteq> 215) then char_of (n + 32) else c)"

text \<open>
  The upper-case forms of \<open>0xB5\<close> and \<open>0xFF\<close> lie beyond code point 255 and
  \<open>0xDF\<close> has none of one character; the model leaves the three unchanged.
\<close>

definition upper_chr :: "char \<Rightarrow> char" where
  "upper_chr c = (let n = code c in
     if between 97 122 n \<or> (between 224 254 n \<and> n \<noteq> 247) then char_of (n - 32) else c)"

definition lower :: "string \<Rightarrow> string" where
  "lower s = map lower_chr s"

definition strip :: "string \<Rightarrow> string" where
  "strip s = rev (dropWhile is_space (rev (dropWhile is_space s)))"

text \<open>\<open>sub in s\<close> on strings: \<open>sub\<close> occurs in \<open>s\<close> as a contiguous run.\<close>

fun contains :: "string \<Rightarrow> string \<Rightarrow> bool" where
  "contains sub [] = (sub = [])"
| "contains sub (c # cs) = (prefix sub (c # cs) \<or> contains sub cs)"

text \<open>\<open>s.split(sep)\<close> for a separator of one character.\<close>

fun split_on :: "char \<Rightarrow> string \<Rightarrow> string list" where
  "split_on sep [] = [[]]"
| "split_on sep (c # cs) =
     (if c = sep then [] # split_on sep cs
      else (case split_on sep cs of
              [] \<Rightarrow> [[c]]
            | l # ls \<Rightarrow> (c # l) # ls))"

fun join :: "string \<Rightarrow> string list \<Rightarrow> string" where
  "join sep [] = []"
| "join sep [x] = x"
| "join sep (x # y # ys) = x @ sep @ join sep (y # ys)"

text \<open>
  \<open>str.title\<close>: the first letter of every run of letters in upper case, the others in
  lower case. The flag says whether the previous character was a letter. The program
  calls it on its own ASCII keywords only, and the model treats the ASCII letters as
  the letters.
\<close>

definition is_ascii_letter :: "char \<Rightarrow> bool" where
  "is_ascii_letter c \<longleftrightarrow> (let n = code c in between 65 90 n \<or> between 97 122 n)"

fun title_from :: "bool \<Rightarrow> string \<Rightarrow> string" where
  "title_from prev [] = []"
| "title_from prev (c # cs) =
     (if is_ascii_letter c
      then (if prev then lower_chr c else upper_chr c) # title_from True cs
      else c # title_from False cs)"

definition title :: "string \<Rightarrow> string" where
  "title s = title_from False s"

text \<open>
  \<open>int(x)\<close> on a string of decimal digits, and \<open>ValueError\<close> on anything else the
  program can hand it; \<open>str(n)\<close> for a natural number. Python's integers are
  unbounded, and so are the model's; the limit that recent interpreters put on the number
  of digits converted between \<open>str\<close> and \<open>int\<close> (4300 by default, and configurable)
  is not part of the model. Group access on a match object raises \<open>IndexError\<close> for a
  group the pattern does not have.
\<close>

datatype exn = IndexError | ValueError

definition digit_val :: "char \<Rightarrow> nat" where
  "digit_val c = nat (code c - 48)"

definition py_int :: "string \<Rightarrow> exn + nat" where
  "py_int x = (if x \<noteq> [] \<and> list_all re_digit x
               then Inr (foldl (\<lambda>n c. 10 * n + digit_val c) 0 x)
               else Inl ValueError)"

definition isdigit :: "string \<Rightarrow> bool" where
  "isdigit x \<longleftrightarrow> x \<noteq> [] \<and> list_all isdigit_chr x"

function str_nat :: "nat \<Rightarrow> string" where
  "str_nat n = (if n < 10 then [char_of (48 + n)]
                else str_nat (n div 10) @ [char_of (48 + n mod 10)])"
  by pat_completeness auto
termination
  by (relation "measure id") auto

declare str_nat.simps [simp del]

section \<open>Regular expressions: the part of Python's \<open>re\<close> the patterns use\<close>

text \<open>
  A pattern is a syntax tree. Repetition applies to single characters (literals and
  classes), which is all the program's patterns need. \<open>Group i r\<close> is the \<open>i\<close>-th
  capturing group, \<open>WordB\<close> is \<open>\b\<close>; a non-capturing group leaves no trace in the
  tree.
\<close>

datatype citem = CChr char | CRange char char | CSpace | CDigit

datatype atom = Lit char | Set "citem list" | NSet "citem list"

datatype regex =
    Eps
  | Atom atom
  | Star atom
  | Plus atom
  | Opt regex
  | Seq regex regex
  | Alt regex regex
  | Group nat regex
  | WordB

text \<open>
  Under \<open>re.IGNORECASE\<close> (the flag \<open>ic\<close>) a literal or a range accepts a character
  when it accepts its lower-case or its upper-case form.
\<close>

definition in_range :: "char \<Rightarrow> char \<Rightarrow> char \<Rightarrow> bool" where
  "in_range a b c \<longleftrightarrow> between (code a) (code b) (code c)"

fun item_ok :: "bool \<Rightarrow> citem \<Rightarrow> char \<Rightarrow> bool" where
  "item_ok ic (CChr x) c = (if ic then lower_chr c = lower_chr x else c = x)"
| "item_ok ic (CRange a b) c =
     (if ic then in_range a b (lower_chr c) \<or> in_range a b (upper_chr c)
      else in_range a b c)"
| "item_ok ic CSpace c = is_space c"
| "item_ok ic CDigit c = re_digit c"

fun atom_ok :: "bool \<Rightarrow> atom \<Rightarrow> char \<Rightarrow> bool" where
  "atom_ok ic (Lit x) c = (if ic then lower_chr c = lower_chr x else c = x)"
| "atom_ok ic (Set items) c = list_ex (\<lambda>i. item_ok ic i c) items"
| "atom_ok ic (NSet items) c = (\<not> list_ex (\<lambda>i. item_ok ic i c) items)"

type_synonym caps = "(nat \<times> string) list"

definition last_chr :: "char option \<Rightarrow> string \<Rightarrow> char option" where
  "last_chr prev m = (if m = [] then prev else Some (last m))"

definition word_opt :: "char option \<Rightarrow> bool" where
  "word_opt p = (case p of None \<Rightarrow> False | Some c \<Rightarrow> is_word c)"

definition first_chr :: "string \<Rightarrow> char option" where
  "first_chr s = (case s of [] \<Rightarrow> None | c # _ \<Rightarrow> Some c)"

text \<open>
  \<open>rmatch ic r prev s\<close> lists every way \<open>r\<close> matches a prefix of \<open>s\<close>, as the matched
  text and the groups captured on the way (latest first), in the order in which the
  backtracking matcher tries them: the left alternative before the right one, the
  longest repetition first, an optional part before its absence. \<open>prev\<close> is the
  character before \<open>s\<close> in the text, for \<open>\b\<close>. The head of the list is the match that
  \<open>re\<close> reports at this position.
\<close>

fun rmatch :: "bool \<Rightarrow> regex \<Rightarrow> char option \<Rightarrow> string \<Rightarrow> (string \<times> caps) list" where
  "rmatch ic Eps prev s = [([], [])]"
| "rmatch ic (Atom a) prev s =
     (case s of [] \<Rightarrow> [] | c # cs \<Rightarrow> if atom_ok ic a c then [([c], [])] else [])"
| "rmatch ic (Star a) prev s =
     map (\<lambda>k. (take k s, [])) (rev [0 ..< Suc (length (takeWhile (atom_ok ic a) s))])"
| "rmatch ic (Plus a) prev s =
     map (\<lambda>k. (take k s, [])) (rev [1 ..< Suc (length (takeWhile (atom_ok ic a) s))])"
| "rmatch ic (Opt r) prev s = rmatch ic r prev s @ [([], [])]"
| "rmatch ic (Seq r1 r2) prev s =
     concat (map (\<lambda>(m1, c1).
        map (\<lambda>(m2, c2). (m1 @ m2, c2 @ c1))
          (rmatch ic r2 (last_chr prev m1) (drop (length m1) s)))
       (rmatch ic r1 prev s))"
| "rmatch ic (Alt r1 r2) prev s = rmatch ic r1 prev s @ rmatch ic r2 prev s"
| "rmatch ic (Group i r) prev s = map (\<lambda>(m, c). (m, (i, m) # c)) (rmatch ic r prev s)"
| "rmatch ic WordB prev s =
     (if word_opt prev \<noteq> word_opt (first_chr s) then [([], [])] else [])"

text \<open>
  The scan of \<open>re.search\<close>: the first position, from the left, at which the pattern
  matches. The result is the number of characters skipped, the matched text and the
  captures. With \<open>adv\<close> set an empty match at the first position is not accepted
  (the rule \<open>findall\<close> and \<open>split\<close> apply right after an empty match).
\<close>

fun scan :: "bool \<Rightarrow> regex \<Rightarrow> char option \<Rightarrow> string \<Rightarrow> bool \<Rightarrow> (nat \<times> string \<times> caps) option" where
  "scan ic r prev [] adv =
     (case filter (\<lambda>(m, c). \<not> adv \<or> m \<noteq> []) (rmatch ic r prev []) of
        [] \<Rightarrow> None
      | (m, c) # _ \<Rightarrow> Some (0, m, c))"
| "scan ic r prev (x # xs) adv =
     (case filter (\<lambda>(m, c). \<not> adv \<or> m \<noteq> []) (rmatch ic r prev (x # xs)) of
        [] \<Rightarrow> (case scan ic r (Some x) xs False of
                 None \<Rightarrow> None
               | Some (k, m, c) \<Rightarrow> Some (Suc k, m, c))
      | (m, c) # _ \<Rightarrow> Some (0, m, c))"


lemma rmatch_prefix:
  "(m, c) \<in> set (rmatch ic r prev s) \<Longrightarrow> prefix m s"
proof (induction r arbitrary: prev s m c)
  case (Atom a)
  then show ?case by (cases s) (auto split: if_splits)
next
  case (Seq r1 r2)
  from Seq.prems obtain m1 c1 m2 c2 where
    a: "(m1, c1) \<in> set (rmatch ic r1 prev s)" and
    b: "(m2, c2) \<in> set (rmatch ic r2 (last_chr prev m1) (drop (length m1) s))" and
    m: "m = m1 @ m2"
    by auto
  from Seq.IH(1) [OF a] obtain t where t: "s = m1 @ t" by (auto simp: prefix_def)
  from Seq.IH(2) [OF b] t have "prefix m2 t" by simp
  with t m show ?case by (auto simp: prefix_def)
qed (auto simp: take_is_prefix split: if_splits)

lemma scan_Some:
  "scan ic r prev s adv = Some (k, m, c) \<Longrightarrow>
     k \<le> length s \<and> (m, c) \<in> set (rmatch ic r (last_chr prev (take k s)) (drop k s)) \<and>
     (adv \<and> k = 0 \<longrightarrow> m \<noteq> [])"
proof (induction s arbitrary: prev adv k)
  case Nil
  show ?case
  proof (cases "filter (\<lambda>(m, c). \<not> adv \<or> m \<noteq> []) (rmatch ic r prev [])")
    case Nil
    with \<open>scan ic r prev [] adv = Some (k, m, c)\<close> show ?thesis by simp
  next
    case (Cons a list)
    with \<open>scan ic r prev [] adv = Some (k, m, c)\<close> have "a = (m, c)" "k = 0"
      by (auto split: prod.splits)
    moreover from Cons
    have "a \<in> set (filter (\<lambda>(m, c). \<not> adv \<or> m \<noteq> []) (rmatch ic r prev []))" by simp
    ultimately show ?thesis by (auto simp: last_chr_def)
  qed
next
  case (Cons x xs)
  show ?case
  proof (cases "filter (\<lambda>(m, c). \<not> adv \<or> m \<noteq> []) (rmatch ic r prev (x # xs))")
    case Nil
    with Cons.prems obtain k' where
      s: "scan ic r (Some x) xs False = Some (k', m, c)" and k: "k = Suc k'"
      by (auto split: option.splits)
    from Cons.IH [OF s] k show ?thesis
      by (auto simp: last_chr_def)
  next
    case (Cons a list)
    with Cons.prems have "a = (m, c)" "k = 0" by (auto split: prod.splits)
    moreover from Cons
    have "a \<in> set (filter (\<lambda>(m, c). \<not> adv \<or> m \<noteq> []) (rmatch ic r prev (x # xs)))"
      by simp
    ultimately show ?thesis by (auto simp: last_chr_def)
  qed
qed

lemma scan_bounds:
  assumes "scan ic r prev s adv = Some (k, m, c)"
  shows "k + length m \<le> length s" and "adv \<Longrightarrow> 0 < k + length m"
proof -
  from scan_Some [OF assms] have k: "k \<le> length s"
    and m: "(m, c) \<in> set (rmatch ic r (last_chr prev (take k s)) (drop k s))"
    and a: "adv \<and> k = 0 \<longrightarrow> m \<noteq> []" by auto
  from rmatch_prefix [OF m] have "length m \<le> length (drop k s)" by (rule prefix_length_le)
  with k show "k + length m \<le> length s" by simp
  from a show "adv \<Longrightarrow> 0 < k + length m" by (cases k) auto
qed

text \<open>
  The loop shared by \<open>re.findall\<close> and \<open>re.split\<close>: search, record the match, go on
  from its end; after an empty match the next one must not be empty at the same place.
  Each entry is the gap before the match, its text and its captures.
\<close>

function finditer :: "bool \<Rightarrow> regex \<Rightarrow> char option \<Rightarrow> string \<Rightarrow> bool \<Rightarrow> (nat \<times> string \<times> caps) list" where
  "finditer ic r prev s adv =
     (case scan ic r prev s adv of
        None \<Rightarrow> []
      | Some (k, m, c) \<Rightarrow>
          (k, m, c) # finditer ic r (last_chr prev (take (k + length m) s))
                        (drop (k + length m) s) (m = []))"
  by pat_completeness auto
termination
proof (relation "measure (\<lambda>(ic, r, prev, s, adv). 2 * length s + (if adv then 0 else 1))",
    goal_cases)
  case 1
  show ?case by simp
next
  case (2 ic r prev s adv x2 k y m c)
  then have s: "scan ic r prev s adv = Some (k, m, c)" by simp
  from scan_bounds [OF s] show ?case by (cases adv; cases m) auto
qed

declare finditer.simps [simp del]

fun ngroups :: "regex \<Rightarrow> nat" where
  "ngroups (Opt r) = ngroups r"
| "ngroups (Seq r1 r2) = ngroups r1 + ngroups r2"
| "ngroups (Alt r1 r2) = ngroups r1 + ngroups r2"
| "ngroups (Group i r) = Suc (ngroups r)"
| "ngroups r = 0"

text \<open>
  \<open>re.search\<close> returns a match object or \<open>None\<close>. \<open>group\<close> is its method:
  group 0 is the whole match, a group that took no part in the match is \<open>None\<close>, a
  group the pattern does not have raises.
\<close>

definition re_search :: "bool \<Rightarrow> regex \<Rightarrow> string \<Rightarrow> (string \<times> caps) option" where
  "re_search ic r text = map_option snd (scan ic r None text False)"

definition group :: "regex \<Rightarrow> string \<times> caps \<Rightarrow> nat \<Rightarrow> exn + string option" where
  "group r mt i = (if i = 0 then Inr (Some (fst mt))
                   else if i \<le> ngroups r then Inr (map_of (snd mt) i)
                   else Inl IndexError)"

text \<open>
  \<open>re.findall\<close>: the whole matches when the pattern has no group, the texts of the
  group when it has one, tuples of the groups' texts when it has several; a group that
  took no part in a match gives the empty string.
\<close>

datatype found = Str string | Tuple "string list"

definition group_text :: "caps \<Rightarrow> nat \<Rightarrow> string" where
  "group_text c i = (case map_of c i of None \<Rightarrow> [] | Some g \<Rightarrow> g)"

definition found_of :: "regex \<Rightarrow> nat \<times> string \<times> caps \<Rightarrow> found" where
  "found_of r = (\<lambda>(k, m, c).
     if ngroups r = 0 then Str m
     else if ngroups r = 1 then Str (group_text c 1)
     else Tuple (map (group_text c) [1 ..< Suc (ngroups r)]))"

definition findall :: "bool \<Rightarrow> regex \<Rightarrow> string \<Rightarrow> found list" where
  "findall ic r text = map (found_of r) (finditer ic r None text False)"

text \<open>
  \<open>re.split\<close> for a pattern without groups: the pieces of the text between the matches.
\<close>

fun pieces :: "string \<Rightarrow> (nat \<times> string \<times> caps) list \<Rightarrow> string list" where
  "pieces s [] = [s]"
| "pieces s ((k, m, c) # ms) = take k s # pieces (drop (k + length m) s) ms"

definition re_split :: "bool \<Rightarrow> regex \<Rightarrow> string \<Rightarrow> string list" where
  "re_split ic r text = pieces text (finditer ic r None text False)"

text \<open>Writing patterns: a literal word, a choice, a sequence.\<close>

fun lits :: "string \<Rightarrow> regex" where
  "lits [] = Eps"
| "lits [c] = Atom (Lit c)"
| "lits (c # cs) = Seq (Atom (Lit c)) (lits cs)"

fun alts :: "regex list \<Rightarrow> regex" where
  "alts [] = Atom (Set [])"
| "alts [r] = r"
| "alts (r # rs) = Alt r (alts rs)"

fun seqs :: "regex list \<Rightarrow> regex" where
  "seqs [] = Eps"
| "seqs [r] = r"
| "seqs (r # rs) = Seq r (seqs rs)"

section \<open>The parser (\<open>job_parser.py\<close>)\<close>

subsection \<open>The tables of \<open>__init__\<close>\<close>

text \<open>Each skill pattern is \<open>\b(?:w1|w2|...)\b\<close>.\<close>

definition words :: "string list \<Rightarrow> regex" where
  "words ws = seqs [WordB, alts (map lits ws), WordB]"

definition skill_patterns :: "regex list" where
  "skill_patterns =
    [words [''Python'', ''Java'', ''JavaScript'', ''TypeScript'', ''C++'', ''C#'', ''Go'',
            ''Rust'', ''Ruby'', ''PHP'', ''Swift'', ''Kotlin''],
     words [''React'', ''Angular'', ''Vue'', ''Node.js'', ''Express'', ''Django'', ''Flask'',
            ''Spring'', ''Laravel''],
     words [''AWS'', ''Azure'', ''GCP'', ''Docker'', ''Kubernetes'', ''Git'', ''Jenkins'',
            ''CI/CD''],
     words [''SQL'', ''MongoDB'', ''PostgreSQL'', ''MySQL'', ''Redis'', ''Elasticsearch''],
     words [''Machine Learning'', ''ML'', ''AI'', ''Data Science'', ''Analytics'',
            ''Statistics''],
     words [''Agile'', ''Scrum'', ''DevOps'', ''Microservices'', ''REST'', ''API'',
            ''GraphQL'']]"

text \<open>The dictionary keeps its insertion order: junior, mid, senior, manager.\<close>

definition seniority_keywords :: "(string \<times> string list) list" where
  "seniority_keywords =
    [(''junior'', [''junior'', ''entry'', ''associate'', ''graduate'', ''intern'']),
     (''mid'', [''mid'', ''intermediate'', ''regular'', ''software engineer'', ''developer'']),
     (''senior'', [''senior'', ''sr'', ''lead'', ''principal'', ''staff'', ''expert'']),
     (''manager'', [''manager'', ''director'', ''head'', ''chief'', ''vp'',
                    ''vice president''])]"

definition spaces :: regex where
  "spaces = Star (Set [CSpace])"

definition digits :: regex where
  "digits = Plus (Set [CDigit])"

text \<open>
  \<^verbatim>\<open>(\d+)[\+\-\s]*(?:to|-)?\s*(\d+)?\s*years?\s*(?:of\s*)?experience\<close>,
  \<^verbatim>\<open>(\d+)\+\s*years?\<close>, \<^verbatim>\<open>minimum\s*(\d+)\s*years?\<close> and
  \<^verbatim>\<open>at\s*least\s*(\d+)\s*years?\<close>.
\<close>

definition years_opt :: regex where
  "years_opt = Seq (lits ''year'') (Opt (Atom (Lit CHR ''s'')))"

definition experience_patterns :: "regex list" where
  "experience_patterns =
    [seqs [Group 1 digits, Star (Set [CChr CHR ''+'', CChr CHR ''-'', CSpace]),
           Opt (Alt (lits ''to'') (lits ''-'')), spaces, Opt (Group 2 digits), spaces,
           years_opt, spaces, Opt (Seq (lits ''of'') spaces), lits ''experience''],
     seqs [Group 1 digits, lits ''+'', spaces, years_opt],
     seqs [lits ''minimum'', spaces, Group 1 digits, spaces, years_opt],
     seqs [lits ''at'', spaces, lits ''least'', spaces, Group 1 digits, spaces, years_opt]]"


subsection \<open>\<open>extract_skills\<close>\<close>

text \<open>
  The Python set \<open>skills\<close> is the list of its elements without repetition, in the order
  in which they came in. \<open>list(skills)\<close> enumerates the set in an order that depends on
  the hashes of the strings, which change from one run of the interpreter to the next:
  the model takes that enumeration as the parameter \<open>enum\<close>, and \<open>enumeration enum\<close>
  says what is known of it, that it lists every element once.

  No skill pattern has a group, so every item \<open>findall\<close> returns for one is a string
  (\<open>strs\<close> keeps those).
\<close>

definition set_add :: "string \<Rightarrow> string list \<Rightarrow> string list" where
  "set_add x xs = (if x \<in> set xs then xs else xs @ [x])"

definition set_update :: "string list \<Rightarrow> string list \<Rightarrow> string list" where
  "set_update xs ys = foldl (\<lambda>acc y. set_add y acc) xs ys"

definition enumeration :: "(string list \<Rightarrow> string list) \<Rightarrow> bool" where
  "enumeration enum \<longleftrightarrow> (\<forall>xs. distinct xs \<longrightarrow> distinct (enum xs) \<and> set (enum xs) = set xs)"

fun strs :: "found list \<Rightarrow> string list" where
  "strs [] = []"
| "strs (Str x # fs) = x # strs fs"
| "strs (Tuple t # fs) = strs fs"

definition skill_keywords :: "string list" where
  "skill_keywords =
    [''python'', ''java'', ''javascript'', ''typescript'', ''react'', ''angular'', ''vue'',
     ''node.js'', ''django'', ''flask'', ''spring'', ''aws'', ''azure'', ''docker'',
     ''kubernetes'', ''git'', ''sql'', ''mongodb'', ''postgresql'', ''machine learning'',
     ''data science'', ''agile'', ''scrum'', ''devops'', ''rest api'', ''microservices'']"

definition regex_skills :: "string \<Rightarrow> string list" where
  "regex_skills text =
     foldl (\<lambda>skills pattern. set_update skills (strs (findall True pattern text)))
       [] skill_patterns"

definition keyword_skills :: "string \<Rightarrow> string list \<Rightarrow> string list" where
  "keyword_skills text_lower skills0 =
     foldl (\<lambda>skills skill. if contains skill text_lower then set_add (title skill) skills
                             else skills)
       skills0 skill_keywords"

definition extract_skills :: "(string list \<Rightarrow> string list) \<Rightarrow> string \<Rightarrow> string list" where
  "extract_skills enum text = enum (keyword_skills (lower text) (regex_skills text))"

subsection \<open>\<open>extract_seniority_level\<close>\<close>

fun find_level :: "(string \<times> string list) list \<Rightarrow> string \<Rightarrow> string option" where
  "find_level [] text_lower = None"
| "find_level ((level, keywords) # rest) text_lower =
     (if list_ex (\<lambda>keyword. contains keyword text_lower) keywords then Some level
      else find_level rest text_lower)"

definition extract_seniority_level :: "string \<Rightarrow> string" where
  "extract_seniority_level text =
     (case find_level seniority_keywords (lower text) of
        Some level \<Rightarrow> level
      | None \<Rightarrow> ''mid'')"

subsection \<open>\<open>extract_years_of_experience\<close>\<close>

text \<open>The comprehension \<open>[int(x) for x in ... if x.isdigit()]\<close>.\<close>

fun ints :: "string list \<Rightarrow> exn + nat list" where
  "ints [] = Inr []"
| "ints (x # xs) =
     (if isdigit x
      then (case py_int x of
              Inl e \<Rightarrow> Inl e
            | Inr n \<Rightarrow> (case ints xs of Inl e \<Rightarrow> Inl e | Inr ns \<Rightarrow> Inr (n # ns)))
      else ints xs)"

fun experience_loop :: "regex list \<Rightarrow> string \<Rightarrow> exn + string" where
  "experience_loop [] text = Inr ''Not specified''"
| "experience_loop (pattern # rest) text =
     (case findall True pattern text of
        [] \<Rightarrow> experience_loop rest text
      | Tuple t # _ \<Rightarrow>
          (case ints t of
             Inl e \<Rightarrow> Inl e
           | Inr years \<Rightarrow>
               (case years of
                  [y0, y1] \<Rightarrow> Inr (str_nat y0 @ ''-'' @ str_nat y1 @ '' years'')
                | [y0] \<Rightarrow> Inr (str_nat y0 @ ''+ years'')
                | _ \<Rightarrow> experience_loop rest text))
      | Str m # _ \<Rightarrow> Inr (m @ ''+ years''))"

definition extract_years_of_experience :: "string \<Rightarrow> exn + string" where
  "extract_years_of_experience text = experience_loop experience_patterns text"

text \<open>
  For the proofs: a pattern all of whose groups are \<^verbatim>\<open>(\d+)\<close>, and a non-empty string of
  decimal digits.
\<close>

fun digit_groups :: "regex \<Rightarrow> bool" where
  "digit_groups (Group i r) = (r = Plus (Set [CDigit]))"
| "digit_groups (Seq r1 r2) = (digit_groups r1 \<and> digit_groups r2)"
| "digit_groups (Alt r1 r2) = (digit_groups r1 \<and> digit_groups r2)"
| "digit_groups (Opt r) = digit_groups r"
| "digit_groups r = True"

definition digit_string :: "string \<Rightarrow> bool" where
  "digit_string g \<longleftrightarrow> g \<noteq> [] \<and> list_all re_digit g"

subsection \<open>\<open>extract_location\<close>\<close>

text \<open>
  \<^verbatim>\<open>location:?\s*([^\n\r]+)\<close>, \<^verbatim>\<open>based in\s*([^\n\r,]+)\<close>,
  \<^verbatim>\<open>([A-Z][a-z]+,?\s*[A-Z]{2})\<close>, \<^verbatim>\<open>remote\<close>, \<^verbatim>\<open>hybrid\<close> and
  \<^verbatim>\<open>on-site\<close>.
\<close>

definition upper_AZ :: atom where
  "upper_AZ = Set [CRange CHR ''A'' CHR ''Z'']"

definition lower_az :: atom where
  "lower_az = Set [CRange CHR ''a'' CHR ''z'']"

definition city_state :: regex where
  "city_state = Group 1 (seqs [Atom upper_AZ, Plus lower_az, Opt (Atom (Lit CHR '','')),
                               spaces, Atom upper_AZ, Atom upper_AZ])"

definition location_patterns :: "regex list" where
  "location_patterns =
    [seqs [lits ''location'', Opt (Atom (Lit CHR '':'')), spaces,
           Group 1 (Plus (NSet [CChr (CHR 0x0A), CChr (CHR 0x0D)]))],
     seqs [lits ''based in'', spaces,
           Group 1 (Plus (NSet [CChr (CHR 0x0A), CChr (CHR 0x0D), CChr CHR '','']))],
     city_state,
     lits ''remote'',
     lits ''hybrid'',
     lits ''on-site'']"

text \<open>
  \<open>matches.group(1).strip() if matches.group(1) else matches.group(0)\<close>: the condition
  is evaluated first and raises when the pattern has no group 1; \<open>None\<close> and the empty
  string count as false.
\<close>

fun location_loop :: "regex list \<Rightarrow> string \<Rightarrow> exn + string" where
  "location_loop [] text = Inr ''Not specified''"
| "location_loop (pattern # rest) text =
     (case re_search True pattern text of
        None \<Rightarrow> location_loop rest text
      | Some matches \<Rightarrow>
          (case group pattern matches 1 of
             Inl e \<Rightarrow> Inl e
           | Inr None \<Rightarrow> Inr (fst matches)
           | Inr (Some g) \<Rightarrow> if g \<noteq> [] then Inr (strip g) else Inr (fst matches)))"

definition extract_location :: "string \<Rightarrow> exn + string" where
  "extract_location text = location_loop location_patterns text"

text \<open>A text that starts with four ASCII letters (used in the proofs about the patterns).\<close>

definition four_letters :: "string \<Rightarrow> bool" where
  "four_letters s \<longleftrightarrow> 4 \<le> length s \<and> list_all is_ascii_letter (take 4 s)"

subsection \<open>\<open>extract_job_title\<close>\<close>

definition title_keywords :: "string list" where
  "title_keywords = [''engineer'', ''developer'', ''manager'', ''analyst'', ''scientist'']"

definition extract_job_title :: "string \<Rightarrow> string" where
  "extract_job_title text =
     (case find (\<lambda>line. list_ex (\<lambda>keyword. contains keyword (lower line)) title_keywords)
             (map strip (take 5 (split_on (CHR 0x0A) text))) of
        Some line \<Rightarrow> line
      | None \<Rightarrow> ''Position not clearly specified'')"

subsection \<open>\<open>generate_summary\<close>\<close>

text \<open>The sentence separator \<^verbatim>\<open>[.!?]+\<close>, used without flags.\<close>

definition sentence_end :: atom where
  "sentence_end = Set [CChr CHR ''.'', CChr CHR ''!'', CChr CHR ''?'']"

fun summary_loop :: "string list \<Rightarrow> string list \<Rightarrow> string list" where
  "summary_loop [] summary_parts = summary_parts"
| "summary_loop (sentence # rest) summary_parts =
     (if 20 < length (strip sentence)
      then summary_loop rest (summary_parts @ [strip sentence])
      else summary_loop rest summary_parts)"

definition generate_summary :: "string \<Rightarrow> string \<Rightarrow> string list \<Rightarrow> string" where
  "generate_summary text job_title skills =
     (let sentences = re_split False (Plus sentence_end) text;
          summary_parts = summary_loop (take 3 sentences) [];
          base_summary = (if summary_parts \<noteq> [] then join ''. '' (take 2 summary_parts)
                          else ''Looking for a '' @ job_title)
      in if skills \<noteq> []
         then base_summary @ '' with expertise in '' @ join '', '' (take 3 skills) @ ''.''
         else base_summary)"

text \<open>
  The summary in the words of the specification, to compare \<open>generate_summary\<close> with:
  the text is cut at every run of \<open>.\<close>, \<open>!\<close> and \<open>?\<close>; of the first three fragments,
  those longer than 20 characters once stripped are kept; the first two kept are joined
  with a full stop and a space, or the title is used when none is kept; the first three
  skills are appended when there are any.
\<close>

definition sentence_punct :: "char \<Rightarrow> bool" where
  "sentence_punct c \<longleftrightarrow> c = CHR ''.'' \<or> c = CHR ''!'' \<or> c = CHR ''?''"

function split_sentences :: "string \<Rightarrow> string list" where
  "split_sentences s =
     (case dropWhile (\<lambda>c. \<not> sentence_punct c) s of
        [] \<Rightarrow> [s]
      | p # rest \<Rightarrow> takeWhile (\<lambda>c. \<not> sentence_punct c) s #
                    split_sentences (dropWhile sentence_punct rest))"
  by pat_completeness auto
termination
proof (relation "measure length", goal_cases)
  case 1
  show ?case by simp
next
  case (2 s p rest)
  have "length (dropWhile sentence_punct rest) \<le> length rest"
    by (rule length_dropWhile_le)
  also have "\<dots> < length (dropWhile (\<lambda>c. \<not> sentence_punct c) s)"
    using 2 by simp
  also have "\<dots> \<le> length s" by (rule length_dropWhile_le)
  finally show ?case by simp
qed

declare split_sentences.simps [simp del]

definition spec_summary :: "string \<Rightarrow> string \<Rightarrow> string list \<Rightarrow> string" where
  "spec_summary text job_title skills =
     (let fragments = take 3 (split_sentences text);
          kept = map strip (filter (\<lambda>fragment. 20 < length (strip fragment)) fragments);
          base = (if kept = [] then ''Looking for a '' @ job_title
                  else join ''. '' (take 2 kept))
      in if skills = [] then base
         else base @ '' with expertise in '' @ join '', '' (take 3 skills) @ ''.'')"

subsection \<open>\<open>parse\<close>\<close>

text \<open>
  The returned dictionary is the list of its keys and values, in the order of the
  dictionary display.
\<close>

datatype json = JStr string | JList "string list" | JObj "(string \<times> json) list"

type_synonym dict = "(string \<times> json) list"

definition placeholder :: string where
  "placeholder = ''{job_description}''"

definition parse :: "(string list \<Rightarrow> string list) \<Rightarrow> string \<Rightarrow> exn + dict" where
  "parse enum job_description =
     (if job_description = [] \<or> strip job_description = placeholder
      then Inr [(''error'', JStr (''No job description provided. Please replace '' @
                  ''{job_description} with actual job description text.''))]
      else
        let job_title = extract_job_title job_description;
            seniority_level = extract_seniority_level job_description;
            required_skills = extract_skills enum job_description
        in case extract_years_of_experience job_description of
             Inl e \<Rightarrow> Inl e
           | Inr years_of_experience \<Rightarrow>
               (case extract_location job_description of
                  Inl e \<Rightarrow> Inl e
                | Inr preferred_location \<Rightarrow>
                    Inr [(''jobTitle'', JStr job_title),
                         (''seniorityLevel'', JStr seniority_level),
                         (''requiredSkills'', JList required_skills),
                         (''yearsOfExperience'', JStr years_of_experience),
                         (''preferredLocation'', JStr preferred_location),
                         (''summary'', JStr (generate_summary job_description job_title
                                              required_skills))]))"

definition keys :: "dict \<Rightarrow> string list" where
  "keys d = map fst d"

section \<open>The entry point (\<open>parse_job.py\<close>)\<close>

definition example_record :: dict where
  "example_record =
    [(''jobTitle'', JStr ''Senior Software Engineer''),
     (''seniorityLevel'', JStr ''senior''),
     (''requiredSkills'', JList [''Python'', ''JavaScript'', ''React'', ''AWS'']),
     (''yearsOfExperience'', JStr ''5+ years''),
     (''preferredLocation'', JStr ''San Francisco, CA''),
     (''summary'', JStr (''Senior Software Engineer position requiring 5+ years '' @
                         ''experience with modern web technologies.''))]"

definition placeholder_response :: dict where
  "placeholder_response =
    [(''error'', JStr ''Please replace {job_description} with actual job description text''),
     (''example'', JObj example_record)]"

definition parse_job_description :: "(string list \<Rightarrow> string list) \<Rightarrow> string \<Rightarrow> exn + dict" where
  "parse_job_description enum job_description_text =
     (if contains placeholder job_description_text then Inr placeholder_response
      else parse enum job_description_text)"

section \<open>The sample posting of \<open>main\<close>\<close>

definition nl :: string where
  "nl = [CHR 0x0A]"

text \<open>The triple-quoted text, line by line; the text is the lines joined by newlines.\<close>

definition sample_lines :: "string list" where
  "sample_lines =
    ['''',
     ''    Senior Software Engineer - Full Stack Development'',
     ''    '',
     ''    We are seeking a Senior Software Engineer to join our dynamic team. '' @
       ''The ideal candidate will have 5+ years of experience in full-stack development '' @
       ''and be proficient in modern web technologies.'',
     ''    '',
     ''    Requirements:'',
     ''    - 5+ years of professional software development experience'',
     ''    - Strong proficiency in Python, JavaScript, and React'',
     ''    - Experience with AWS cloud services'',
     ''    - Knowledge of Docker and Kubernetes'',
     ''    - Familiarity with Agile development methodologies'',
     ''    - Bachelor's degree in Computer Science or related field'',
     ''    '',
     ''    Location: San Francisco, CA (Hybrid work arrangement available)'',
     ''    '',
     ''    Join our innovative team and help build cutting-edge applications that '' @
       ''serve millions of users worldwide.'',
     ''    '']"

definition sample_job_description :: string where
  "sample_job_description = join nl sample_lines"


section \<open>Strings: facts shared by the proofs\<close>

lemma contains_iff: "contains sub s \<longleftrightarrow> (\<exists>ps ss. s = ps @ sub @ ss)"
proof (induction s)
  case Nil
  then show ?case by auto
next
  case (Cons c cs)
  have "sublist sub (c # cs) \<longleftrightarrow> prefix sub (c # cs) \<or> sublist sub cs"
    by (rule sublist_Cons_right)
  with Cons show ?case by (simp add: sublist_def)
qed

section \<open>The placeholder and the error record\<close>

text \<open>
  Claim C3. Whenever the text handed to \<open>parse_job_description\<close> contains the token
  \<open>{job_description}\<close> anywhere, the result is the fixed placeholder response (the keys
  \<open>error\<close> and \<open>example\<close>); no extraction takes part in it.
\<close>

theorem placeholder_short_circuit:
  "job_description_text = before @ ''{job_description}'' @ after \<Longrightarrow>
     parse_job_description enum job_description_text = Inr placeholder_response \<and>
     keys placeholder_response = [''error'', ''example'']"
proof
  assume "job_description_text = before @ ''{job_description}'' @ after"
  then have "contains placeholder job_description_text"
    unfolding contains_iff placeholder_def by blast
  then show "parse_job_description enum job_description_text = Inr placeholder_response"
    by (simp add: parse_job_description_def)
  show "keys placeholder_response = [''error'', ''example'']"
    by (simp add: keys_def placeholder_response_def)
qed

theorem placeholder_short_circuit_witness:
  "parse_job_description id ''Role: {job_description} (draft)'' = Inr placeholder_response \<and>
   keys placeholder_response = [''error'', ''example'']"
  using placeholder_short_circuit
    [of "''Role: {job_description} (draft)''" "''Role: ''" "'' (draft)''" id]
  by simp

text \<open>
  Claim C2 says that \<open>parse\<close> answers an empty text, a text of white space only and a
  text that is the placeholder once stripped with the record whose only key is
  \<open>error\<close>. A text of three spaces is not empty, so \<open>not job_description\<close> is false,
  and stripped it is not the placeholder: \<open>parse\<close> goes on and returns the six fields.
\<close>

theorem parse_whitespace_counterexample:
  "list_all is_space ''   '' \<and>
   map_sum id keys (parse id ''   '') =
     Inr [''jobTitle'', ''seniorityLevel'', ''requiredSkills'', ''yearsOfExperience'',
          ''preferredLocation'', ''summary'']"
  by code_simp

text \<open>
  Claim C2, amended. For every text that is empty, or that is the placeholder once
  stripped, \<open>parse\<close> returns a record whose only key is \<open>error\<close>.
\<close>

theorem parse_error_record:
  "job_description = [] \<or> strip job_description = ''{job_description}'' \<Longrightarrow>
     (\<exists>message. parse enum job_description = Inr [(''error'', JStr message)]) \<and>
     map_sum id keys (parse enum job_description) = Inr [''error'']"
  by (auto simp: parse_def placeholder_def keys_def)

theorem parse_error_record_witness:
  "strip ''  {job_description} '' = ''{job_description}'' \<and>
   (\<exists>message. parse id ''  {job_description} '' = Inr [(''error'', JStr message)]) \<and>
   map_sum id keys (parse id ''  {job_description} '') = Inr [''error'']"
proof -
  have h: "strip ''  {job_description} '' = ''{job_description}''" by code_simp
  from parse_error_record [of "''  {job_description} ''" id] h show ?thesis by blast
qed

section \<open>Years of experience\<close>

lemma experience_loop_none:
  "\<forall>p \<in> set ps. findall True p text = [] \<Longrightarrow> experience_loop ps text = Inr ''Not specified''"
  by (induction ps) auto

text \<open>
  Claim C7. \<open>5+ years of experience\<close> gives \<open>5+ years\<close>; in
  \<open>3-5 years experience required\<close> the range pattern captures both numbers and the
  result is \<open>3-5 years\<close>; a text that no experience pattern matches gives
  \<open>Not specified\<close>.
\<close>

theorem years_examples:
  "extract_years_of_experience ''5+ years of experience'' = Inr ''5+ years'' \<and>
   findall True (hd experience_patterns) ''3-5 years experience required'' =
     [Tuple [''3'', ''5'']] \<and>
   extract_years_of_experience ''3-5 years experience required'' = Inr ''3-5 years'' \<and>
   ((\<forall>pattern \<in> set experience_patterns. findall True pattern text = []) \<longrightarrow>
      extract_years_of_experience text = Inr ''Not specified'')"
proof -
  have a: "extract_years_of_experience ''5+ years of experience'' = Inr ''5+ years''"
    by code_simp
  have b: "findall True (hd experience_patterns) ''3-5 years experience required'' =
      [Tuple [''3'', ''5'']]"
    by code_simp
  have c: "extract_years_of_experience ''3-5 years experience required'' = Inr ''3-5 years''"
    by code_simp
  from a b c show ?thesis
    by (simp add: extract_years_of_experience_def experience_loop_none)
qed

theorem years_examples_witness:
  "list_all (\<lambda>pattern. findall True pattern ''Python developer wanted'' = [])
     experience_patterns \<and>
   extract_years_of_experience ''Python developer wanted'' = Inr ''Not specified''"
proof -
  have h: "list_all (\<lambda>pattern. findall True pattern ''Python developer wanted'' = [])
          experience_patterns"
    by code_simp
  then have "\<forall>pattern \<in> set experience_patterns.
      findall True pattern ''Python developer wanted'' = []"
    by (simp add: list_all_iff)
  with years_examples [of "''Python developer wanted''"] h show ?thesis by blast
qed

section \<open>Location\<close>

text \<open>
  Claim C10 gives \<open>great\<close> as the location found in \<open>great opportunity\<close>. The
  city-and-state pattern goes on over the space to the two letters that follow.
\<close>

theorem great_opportunity_counterexample:
  "extract_location ''great opportunity'' \<noteq> Inr ''great''"
  by code_simp

text \<open>
  Claim C10, amended. The text \<open>great opportunity\<close> has no location label, no
  \<open>based in\<close> and none of the words remote, hybrid and on-site, and
  \<open>extract_location\<close> returns \<open>great op\<close> for it, not \<open>Not specified\<close>: the
  city-and-state pattern, matched without regard to case, takes the letters
  \<open>great\<close>, the space and the two letters \<open>op\<close>.
\<close>

theorem great_opportunity_location:
  "\<not> contains ''location'' (lower ''great opportunity'') \<and>
   \<not> contains ''based in'' (lower ''great opportunity'') \<and>
   \<not> contains ''remote'' (lower ''great opportunity'') \<and>
   \<not> contains ''hybrid'' (lower ''great opportunity'') \<and>
   \<not> contains ''on-site'' (lower ''great opportunity'') \<and>
   re_search True city_state ''great opportunity'' = Some (''great op'', [(1, ''great op'')]) \<and>
   extract_location ''great opportunity'' = Inr ''great op'' \<and>
   ''great op'' \<noteq> ''Not specified''"
  by code_simp


section \<open>Seniority\<close>

lemma find_level_filter:
  "find_level table t =
     (case filter (\<lambda>(level, keywords). \<exists>keyword \<in> set keywords. contains keyword t) table of
        [] \<Rightarrow> None
      | (level, _) # _ \<Rightarrow> Some level)"
  by (induction table t rule: find_level.induct) (auto simp: list_ex_iff)

lemma lower_append: "lower (a @ b) = lower a @ lower b"
  by (simp add: lower_def)

lemma contains_lower:
  assumes "contains sub text" and "lower sub = kw @ rest"
  shows "contains kw (lower text)"
proof -
  from assms(1) obtain ps ss where "text = ps @ sub @ ss" unfolding contains_iff by blast
  then have "lower text = lower ps @ kw @ (rest @ lower ss)"
    using assms(2) by (simp add: lower_append)
  then show ?thesis unfolding contains_iff by blast
qed

text \<open>
  Claim C6. The levels are tried in the order junior, mid, senior, manager, and the
  result is the first level one of whose keywords occurs in the lower-cased text,
  whatever keywords of later levels occur as well; a text that contains
  \<open>junior developer, senior-level mentorship\<close> gives \<open>junior\<close>, and a text in which
  no keyword occurs gives \<open>mid\<close>.
\<close>

theorem seniority_first_level_wins:
  "map fst seniority_keywords = [''junior'', ''mid'', ''senior'', ''manager''] \<and>
   extract_seniority_level text =
     (case filter (\<lambda>(level, keywords). \<exists>keyword \<in> set keywords. contains keyword (lower text))
             seniority_keywords of
        [] \<Rightarrow> ''mid''
      | (level, _) # _ \<Rightarrow> level) \<and>
   ((\<exists>keyword \<in> set [''junior'', ''entry'', ''associate'', ''graduate'', ''intern''].
       contains keyword (lower text)) \<longrightarrow> extract_seniority_level text = ''junior'') \<and>
   (contains ''junior developer, senior-level mentorship'' text \<longrightarrow>
      extract_seniority_level text = ''junior'') \<and>
   ((\<forall>(level, keywords) \<in> set seniority_keywords.
       \<forall>keyword \<in> set keywords. \<not> contains keyword (lower text)) \<longrightarrow>
      extract_seniority_level text = ''mid'')"
proof (intro conjI impI)
  show "map fst seniority_keywords = [''junior'', ''mid'', ''senior'', ''manager'']"
    by (simp add: seniority_keywords_def)
  show c: "extract_seniority_level text =
     (case filter (\<lambda>(level, keywords). \<exists>keyword \<in> set keywords. contains keyword (lower text))
             seniority_keywords of
        [] \<Rightarrow> ''mid''
      | (level, _) # _ \<Rightarrow> level)"
    by (simp add: extract_seniority_level_def find_level_filter split: list.splits)
  show j: "extract_seniority_level text = ''junior''"
    if "\<exists>keyword \<in> set [''junior'', ''entry'', ''associate'', ''graduate'', ''intern''].
       contains keyword (lower text)"
    using that by (simp add: extract_seniority_level_def seniority_keywords_def)
  show "extract_seniority_level text = ''junior''"
    if h: "contains ''junior developer, senior-level mentorship'' text"
  proof -
    have "lower ''junior developer, senior-level mentorship'' =
        ''junior'' @ '' developer, senior-level mentorship''"
      by code_simp
    from contains_lower [OF h this] show ?thesis
      by (simp add: extract_seniority_level_def seniority_keywords_def)
  qed
  show "extract_seniority_level text = ''mid''"
    if "\<forall>(level, keywords) \<in> set seniority_keywords.
       \<forall>keyword \<in> set keywords. \<not> contains keyword (lower text)"
  proof -
    from that have "filter (\<lambda>(level, keywords). \<exists>keyword \<in> set keywords. contains keyword (lower text))
             seniority_keywords = []"
      by (auto simp: filter_empty_conv)
    with c show ?thesis by simp
  qed
qed

theorem seniority_first_level_wins_witness:
  "contains ''junior developer, senior-level mentorship''
     ''junior developer, senior-level mentorship'' \<and>
   contains ''senior'' (lower ''junior developer, senior-level mentorship'') \<and>
   extract_seniority_level ''junior developer, senior-level mentorship'' = ''junior'' \<and>
   list_all (\<lambda>(level, keywords). list_all (\<lambda>keyword. \<not> contains keyword (lower ''Data Analyst'')) keywords)
     seniority_keywords \<and>
   extract_seniority_level ''Data Analyst'' = ''mid''"
proof -
  have a: "contains ''junior developer, senior-level mentorship''
     ''junior developer, senior-level mentorship''" by code_simp
  have b: "contains ''senior'' (lower ''junior developer, senior-level mentorship'')"
    by code_simp
  have c: "list_all (\<lambda>(level, keywords). list_all (\<lambda>keyword. \<not> contains keyword (lower ''Data Analyst'')) keywords)
     seniority_keywords" by code_simp
  then have c': "\<forall>(level, keywords) \<in> set seniority_keywords.
       \<forall>keyword \<in> set keywords. \<not> contains keyword (lower ''Data Analyst'')"
    by (auto simp: list_all_iff)
  from seniority_first_level_wins [of "''junior developer, senior-level mentorship''"] a
  have d: "extract_seniority_level ''junior developer, senior-level mentorship'' = ''junior''"
    by blast
  from seniority_first_level_wins [of "''Data Analyst''"] c'
  have e: "extract_seniority_level ''Data Analyst'' = ''mid''" by blast
  from a b c d e show ?thesis by blast
qed

section \<open>Skills\<close>

lemma skill_patterns_no_groups: "\<forall>pattern \<in> set skill_patterns. ngroups pattern = 0"
  by (simp add: skill_patterns_def words_def)

lemma findall_strs:
  "ngroups pattern = 0 \<Longrightarrow> map Str (strs (findall ic pattern txt)) = findall ic pattern txt"
proof -
  assume g: "ngroups pattern = 0"
  have "map Str (strs (map (found_of pattern) ms)) = map (found_of pattern) ms" for ms
    by (induction ms) (auto simp: found_of_def g)
  then show ?thesis by (simp add: findall_def)
qed

lemma distinct_set_add: "distinct xs \<Longrightarrow> distinct (set_add x xs)"
  by (simp add: set_add_def)

lemma distinct_set_update: "distinct xs \<Longrightarrow> distinct (set_update xs ys)"
  unfolding set_update_def by (induction ys arbitrary: xs) (simp_all add: distinct_set_add)

lemma distinct_regex_skills_from:
  "distinct acc \<Longrightarrow>
   distinct (foldl (\<lambda>skills pattern. set_update skills (strs (findall True pattern text))) acc ps)"
  by (induction ps arbitrary: acc) (simp_all add: distinct_set_update)

lemma distinct_keyword_skills_from:
  "distinct acc \<Longrightarrow>
   distinct (foldl (\<lambda>skills skill. if contains skill t then set_add (title skill) skills
                                      else skills) acc ks)"
  by (induction ks arbitrary: acc) (simp_all add: distinct_set_add)

lemma distinct_skills: "distinct (keyword_skills (lower text) (regex_skills text))"
  unfolding keyword_skills_def regex_skills_def
  by (intro distinct_keyword_skills_from distinct_regex_skills_from) simp

text \<open>
  Claim C8. The list \<open>extract_skills\<close> returns has no string twice, and two calls on
  the same text, whatever order each enumerates the set in, return lists with the
  same elements.
\<close>

theorem skills_no_duplicates_same_set:
  "enumeration enum \<Longrightarrow> enumeration enum' \<Longrightarrow>
     distinct (extract_skills enum text) \<and>
     set (extract_skills enum text) = set (extract_skills enum' text)"
  using distinct_skills [of "text"] by (simp add: extract_skills_def enumeration_def)

theorem skills_no_duplicates_same_set_witness:
  "enumeration id \<and> enumeration rev \<and>
   extract_skills id ''Python, python and AWS on aws'' = [''Python'', ''python'', ''AWS'', ''aws'', ''Aws''] \<and>
   extract_skills rev ''Python, python and AWS on aws'' = [''Aws'', ''aws'', ''AWS'', ''python'', ''Python''] \<and>
   distinct (extract_skills id ''Python, python and AWS on aws'') \<and>
   set (extract_skills id ''Python, python and AWS on aws'') =
     set (extract_skills rev ''Python, python and AWS on aws'')"
proof -
  have a: "enumeration id" "enumeration rev" by (simp_all add: enumeration_def)
  have b: "extract_skills id ''Python, python and AWS on aws'' = [''Python'', ''python'', ''AWS'', ''aws'', ''Aws'']"
    by code_simp
  have c: "extract_skills rev ''Python, python and AWS on aws'' = [''Aws'', ''aws'', ''AWS'', ''python'', ''Python'']"
    by code_simp
  from skills_no_duplicates_same_set [OF a, of "''Python, python and AWS on aws''"] a b c
  show ?thesis by blast
qed


section \<open>The location loop never raises\<close>

lemma code_lower_chr:
  "code (lower_chr c) =
     (if between 65 90 (code c) \<or> (between 192 222 (code c) \<and> code c \<noteq> 215)
      then code c + 32 else code c)"
  by (auto simp: lower_chr_def code_def between_def Let_def)

lemma code_upper_chr:
  "code (upper_chr c) =
     (if between 97 122 (code c) \<or> (between 224 254 (code c) \<and> code c \<noteq> 247)
      then code c - 32 else code c)"
  by (auto simp: upper_chr_def code_def between_def Let_def)

lemma letter_of_lower: "is_ascii_letter (lower_chr c) \<Longrightarrow> is_ascii_letter c"
  unfolding is_ascii_letter_def Let_def code_lower_chr
  by (auto simp: between_def split: if_splits)

lemma code_AZ: "code CHR ''A'' = 65" "code CHR ''Z'' = 90" "code CHR ''a'' = 97" "code CHR ''z'' = 122"
  by (simp_all add: code_def)

lemma letter_class:
  assumes "is_ascii_letter c"
  shows "atom_ok True upper_AZ c" and "atom_ok True lower_az c"
  using assms
  unfolding is_ascii_letter_def Let_def upper_AZ_def lower_az_def
  by (auto simp: in_range_def code_lower_chr code_upper_chr code_AZ between_def)

lemma scan_None:
  "scan ic r prev s False = None \<Longrightarrow> k \<le> length s \<Longrightarrow>
     rmatch ic r (last_chr prev (take k s)) (drop k s) = []"
proof (induction s arbitrary: prev k)
  case Nil
  then show ?case by (auto simp: last_chr_def split: list.splits)
next
  case (Cons x xs)
  from Cons.prems(1) have here: "rmatch ic r prev (x # xs) = []"
    and later: "scan ic r (Some x) xs False = None"
    by (auto split: list.splits option.splits)
  show ?case
  proof (cases k)
    case 0
    with here show ?thesis by (simp add: last_chr_def)
  next
    case (Suc k')
    with Cons.prems(2) have "k' \<le> length xs" by simp
    from Cons.IH [OF later this] have "rmatch ic r (last_chr (Some x) (take k' xs)) (drop k' xs) = []" .
    moreover have "last_chr prev (take k (x # xs)) = last_chr (Some x) (take k' xs)"
      using Suc by (simp add: last_chr_def)
    ultimately show ?thesis using Suc by simp
  qed
qed

lemma rmatch_lits:
  "(m, c) \<in> set (rmatch True (lits kw) prev s) \<Longrightarrow>
     length m = length kw \<and> map lower_chr m = map lower_chr kw"
proof (induction kw arbitrary: prev s m c rule: lits.induct)
  case 1
  then show ?case by simp
next
  case (2 x)
  then show ?case by (cases s) (auto split: if_splits)
next
  case (3 x y ys)
  from "3.prems" obtain m1 c1 m2 c2 where
    a: "(m1, c1) \<in> set (rmatch True (Atom (Lit x)) prev s)" and
    b: "(m2, c2) \<in> set (rmatch True (lits (y # ys)) (last_chr prev m1) (drop (length m1) s))" and
    m: "m = m1 @ m2"
    by auto
  from a have "length m1 = 1 \<and> map lower_chr m1 = [lower_chr x]"
    by (cases s) (auto split: if_splits)
  with "3.IH" [OF b] m show ?case by simp
qed

lemma rmatch_SeqI:
  "(m1, c1) \<in> set (rmatch ic r1 prev s) \<Longrightarrow>
   rmatch ic r2 (last_chr prev m1) (drop (length m1) s) \<noteq> [] \<Longrightarrow>
   rmatch ic (Seq r1 r2) prev s \<noteq> []"
  by (cases "rmatch ic r2 (last_chr prev m1) (drop (length m1) s)") force+

lemma city_state_four_letters:
  assumes "four_letters s"
  shows "rmatch True city_state prev s \<noteq> []"
proof -
  from assms obtain a b c d rest where s: "s = a # b # c # d # rest"
    and l: "is_ascii_letter a" "is_ascii_letter b" "is_ascii_letter c" "is_ascii_letter d"
    unfolding four_letters_def
    by (cases s; cases "tl s"; cases "tl (tl s)"; cases "tl (tl (tl s))") auto
  note ok = l [THEN letter_class(1)] l(2) [THEN letter_class(2)]
  have e: "rmatch True (Seq (Atom upper_AZ) (Atom upper_AZ)) p (c # d # rest) \<noteq> []" for p
    using ok by simp
  have sp: "rmatch True (Seq spaces (Seq (Atom upper_AZ) (Atom upper_AZ))) p (c # d # rest) \<noteq> []" for p
  proof (rule rmatch_SeqI)
    show "([], []) \<in> set (rmatch True spaces p (c # d # rest))"
      by (simp add: spaces_def)
    show "rmatch True (Seq (Atom upper_AZ) (Atom upper_AZ)) (last_chr p [])
        (drop (length ([]::string)) (c # d # rest)) \<noteq> []"
      using e by (simp del: rmatch.simps)
  qed
  have op: "rmatch True (Seq (Opt (Atom (Lit CHR '',''))) (Seq spaces (Seq (Atom upper_AZ) (Atom upper_AZ)))) p (c # d # rest) \<noteq> []" for p
  proof (rule rmatch_SeqI)
    show "([], []) \<in> set (rmatch True (Opt (Atom (Lit CHR '',''))) p (c # d # rest))"
      by simp
    show "rmatch True (Seq spaces (Seq (Atom upper_AZ) (Atom upper_AZ))) (last_chr p [])
        (drop (length ([]::string)) (c # d # rest)) \<noteq> []"
      using sp by (simp del: rmatch.simps)
  qed
  have pl: "rmatch True (Seq (Plus lower_az) (Seq (Opt (Atom (Lit CHR '',''))) (Seq spaces (Seq (Atom upper_AZ) (Atom upper_AZ))))) p (b # c # d # rest) \<noteq> []" for p
  proof (rule rmatch_SeqI)
    have "1 \<in> set [1 ..< Suc (length (takeWhile (atom_ok True lower_az) (b # c # d # rest)))]"
      using ok(5) by simp
    then have "(take 1 (b # c # d # rest), []) \<in> set (rmatch True (Plus lower_az) p (b # c # d # rest))"
      unfolding rmatch.simps set_map set_rev by (rule imageI)
    then show "([b], []) \<in> set (rmatch True (Plus lower_az) p (b # c # d # rest))" by simp
    show "rmatch True (Seq (Opt (Atom (Lit CHR '',''))) (Seq spaces (Seq (Atom upper_AZ) (Atom upper_AZ))))
        (last_chr p [b]) (drop (length [b]) (b # c # d # rest)) \<noteq> []"
      using op by (simp del: rmatch.simps)
  qed
  have "rmatch True (Seq (Atom upper_AZ) (Seq (Plus lower_az) (Seq (Opt (Atom (Lit CHR '',''))) (Seq spaces (Seq (Atom upper_AZ) (Atom upper_AZ)))))) prev s \<noteq> []"
  proof (rule rmatch_SeqI)
    show "([a], []) \<in> set (rmatch True (Atom upper_AZ) prev s)"
      using ok(1) s by simp
    show "rmatch True (Seq (Plus lower_az) (Seq (Opt (Atom (Lit CHR '',''))) (Seq spaces (Seq (Atom upper_AZ) (Atom upper_AZ)))))
        (last_chr prev [a]) (drop (length [a]) s) \<noteq> []"
      using pl s by (simp del: rmatch.simps)
  qed
  then show ?thesis by (simp add: city_state_def)
qed


lemma lits_match_letters:
  assumes m: "(m, c) \<in> set (rmatch True (lits kw) prev s)"
    and j: "j + 4 \<le> length kw"
    and l: "list_all is_ascii_letter (map lower_chr (take 4 (drop j kw)))"
  shows "four_letters (drop j s)"
proof -
  from rmatch_prefix [OF m] obtain t where s: "s = m @ t" by (auto simp: prefix_def)
  from rmatch_lits [OF m] have len: "length m = length kw"
    and low: "map lower_chr m = map lower_chr kw" by auto
  have "map lower_chr (take 4 (drop j m)) = take 4 (drop j (map lower_chr m))"
    by (simp add: take_map drop_map)
  also have "\<dots> = map lower_chr (take 4 (drop j kw))"
    by (simp add: low take_map drop_map)
  finally have "list_all is_ascii_letter (map lower_chr (take 4 (drop j m)))"
    using l by simp
  then have "list_all is_ascii_letter (take 4 (drop j m))"
    by (auto simp: list_all_iff dest: letter_of_lower)
  moreover have "take 4 (drop j s) = take 4 (drop j m)" "4 \<le> length (drop j s)"
    using s j len by simp_all
  ultimately show ?thesis by (simp add: four_letters_def)
qed

lemma keyword_found_city_found:
  assumes found: "re_search True (lits kw) txt \<noteq> None"
    and j: "j + 4 \<le> length kw"
    and l: "list_all is_ascii_letter (map lower_chr (take 4 (drop j kw)))"
  shows "re_search True city_state txt \<noteq> None"
proof
  assume none: "re_search True city_state txt = None"
  from found obtain k m c where sc: "scan True (lits kw) None txt False = Some (k, m, c)"
    by (auto simp: re_search_def)
  from scan_Some [OF sc] have k: "k \<le> length txt"
    and m: "(m, c) \<in> set (rmatch True (lits kw) (last_chr None (take k txt)) (drop k txt))"
    by auto
  from lits_match_letters [OF m j l] have four: "four_letters (drop (j + k) txt)"
    by (simp add: add.commute)
  then have "4 \<le> length txt - (j + k)" by (simp add: four_letters_def)
  then have "j + k \<le> length txt" by arith
  moreover from none have "scan True city_state None txt False = None"
    by (simp add: re_search_def)
  ultimately have "rmatch True city_state (last_chr None (take (j + k) txt)) (drop (j + k) txt) = []"
    by (rule scan_None [rotated])
  with city_state_four_letters [OF four] show False by blast
qed

lemma location_step:
  assumes "1 \<le> ngroups p"
  shows "location_loop (p # rest) txt =
     (case re_search True p txt of
        None \<Rightarrow> location_loop rest txt
      | Some matches \<Rightarrow>
          Inr (case map_of (snd matches) 1 of
                 None \<Rightarrow> fst matches
               | Some g \<Rightarrow> if g \<noteq> [] then strip g else fst matches))"
  using assms by (auto simp: group_def split: option.splits)

lemma location_step_none:
  "re_search True p txt = None \<Longrightarrow> location_loop (p # rest) txt = location_loop rest txt"
  by simp

lemma ngroups_location:
  "1 \<le> ngroups (location_patterns ! 0)" "1 \<le> ngroups (location_patterns ! 1)"
  "1 \<le> ngroups city_state"
  by (simp_all add: location_patterns_def city_state_def spaces_def)

lemma location_loop_cons:
  assumes "1 \<le> ngroups p" and "\<exists>location. location_loop rest txt = Inr location"
  shows "\<exists>location. location_loop (p # rest) txt = Inr location"
  using assms
  by (cases "re_search True p txt") (simp_all add: location_step del: location_loop.simps)

lemma extract_location_returns: "\<exists>location. extract_location txt = Inr location"
proof -
  define p0 where "p0 = location_patterns ! 0"
  define p1 where "p1 = location_patterns ! 1"
  define remote where "remote = lits ''remote''"
  define hybrid where "hybrid = lits ''hybrid''"
  define on_site where "on_site = lits ''on-site''"
  have pats: "location_patterns = [p0, p1, city_state, remote, hybrid, on_site]"
    unfolding p0_def p1_def remote_def hybrid_def on_site_def
    by (simp add: location_patterns_def del: lits.simps)
  have tail: "\<exists>location. location_loop [city_state, remote, hybrid, on_site] txt = Inr location"
  proof (cases "re_search True city_state txt")
    case (Some a)
    then show ?thesis
      by (simp add: location_step [OF ngroups_location(3)] del: location_loop.simps)
  next
    case None
    have l: "list_all is_ascii_letter (map lower_chr (take 4 (drop 0 ''remote'')))"
      "list_all is_ascii_letter (map lower_chr (take 4 (drop 0 ''hybrid'')))"
      "list_all is_ascii_letter (map lower_chr (take 4 (drop 3 ''on-site'')))"
      by code_simp+
    have r: "re_search True remote txt = None"
      unfolding remote_def using keyword_found_city_found [OF _ _ l(1)] None by fastforce
    have h: "re_search True hybrid txt = None"
      unfolding hybrid_def using keyword_found_city_found [OF _ _ l(2)] None by fastforce
    have o: "re_search True on_site txt = None"
      unfolding on_site_def using keyword_found_city_found [OF _ _ l(3)] None by fastforce
    have "location_loop [city_state, remote, hybrid, on_site] txt = location_loop [] txt"
      by (simp only: location_step_none [OF None] location_step_none [OF r]
          location_step_none [OF h] location_step_none [OF o])
    then show ?thesis by simp
  qed
  have "\<exists>location. location_loop [p1, city_state, remote, hybrid, on_site] txt = Inr location"
    using ngroups_location(2) tail unfolding p1_def by (rule location_loop_cons)
  then have "\<exists>location. location_loop [p0, p1, city_state, remote, hybrid, on_site] txt = Inr location"
    using ngroups_location(1) unfolding p0_def by (rule location_loop_cons [rotated])
  with pats show ?thesis by (simp only: extract_location_def)
qed

text \<open>
  Claim C9. \<open>extract_location\<close> returns a string for every text: group 1 is never
  asked of a match of \<open>remote\<close>, \<open>hybrid\<close> or \<open>on-site\<close>, because a text in which
  one of these is found, case ignored, is also matched by the city-and-state pattern,
  which comes before them and has a group.
\<close>

theorem extract_location_never_raises:
  "(\<exists>location. extract_location text = Inr location) \<and>
   (\<forall>keyword \<in> {''remote'', ''hybrid'', ''on-site''}.
      re_search True (lits keyword) text \<noteq> None \<longrightarrow>
      re_search True city_state text \<noteq> None)"
proof
  show "\<exists>location. extract_location text = Inr location"
    by (rule extract_location_returns)
  have l: "list_all is_ascii_letter (map lower_chr (take 4 (drop 0 ''remote'')))"
    "list_all is_ascii_letter (map lower_chr (take 4 (drop 0 ''hybrid'')))"
    "list_all is_ascii_letter (map lower_chr (take 4 (drop 3 ''on-site'')))"
    by code_simp+
  show "\<forall>keyword \<in> {''remote'', ''hybrid'', ''on-site''}.
      re_search True (lits keyword) text \<noteq> None \<longrightarrow>
      re_search True city_state text \<noteq> None"
    using keyword_found_city_found [OF _ _ l(1), of "text"]
      keyword_found_city_found [OF _ _ l(2), of "text"]
      keyword_found_city_found [OF _ _ l(3), of "text"]
    by (simp del: lits.simps)
qed

theorem extract_location_never_raises_witness:
  "re_search True (lits ''remote'') ''Fully remote role'' = Some (''remote'', []) \<and>
   re_search True city_state ''Fully remote role'' = Some (''Fully re'', [(1, ''Fully re'')]) \<and>
   extract_location ''Fully remote role'' = Inr ''Fully re''"
proof -
  have a: "re_search True (lits ''remote'') ''Fully remote role'' = Some (''remote'', [])"
    by code_simp
  have b: "extract_location ''Fully remote role'' = Inr ''Fully re''"
    by code_simp
  have c: "map_option fst (re_search True city_state ''Fully remote role'') = Some ''Fully re''"
    by code_simp
  have d: "map_option snd (re_search True city_state ''Fully remote role'') = Some [(1, ''Fully re'')]"
    by code_simp
  from extract_location_never_raises [of "''Fully remote role''"] a
  have "re_search True city_state ''Fully remote role'' \<noteq> None" by simp
  with c d have "re_search True city_state ''Fully remote role'' = Some (''Fully re'', [(1, ''Fully re'')])"
    by (cases "re_search True city_state ''Fully remote role''") auto
  with a b show ?thesis by simp
qed


section \<open>The experience loop never raises, and the six keys\<close>

lemma take_takeWhile_all:
  "k \<le> length (takeWhile P s) \<Longrightarrow> list_all P (take k s)"
proof (induction s arbitrary: k)
  case Nil
  then show ?case by simp
next
  case (Cons x xs)
  then show ?case by (cases k) (auto split: if_splits)
qed

lemma rmatch_digit_caps:
  "(m, c) \<in> set (rmatch ic r prev s) \<Longrightarrow> digit_groups r \<Longrightarrow>
     \<forall>(i, g) \<in> set c. digit_string g"
proof (induction r arbitrary: prev s m c)
  case (Atom a)
  then show ?case by (cases s) (auto split: if_splits)
next
  case (Group i r)
  then have r: "r = Plus (Set [CDigit])" by simp
  with Group.prems(1) obtain k where k: "1 \<le> k" "k \<le> length (takeWhile (atom_ok ic (Set [CDigit])) s)"
    and m: "m = take k s" and c: "c = [(i, m)]"
    by auto
  from take_takeWhile_all [OF k(2)] have "list_all re_digit (take k s)"
    by (simp add: list_all_iff)
  moreover from k have "take k s \<noteq> []" by (cases s) auto
  ultimately show ?case using m c by (simp add: digit_string_def)
next
  case (Seq r1 r2)
  from Seq.prems(1) obtain m1 c1 m2 c2 where
    a: "(m1, c1) \<in> set (rmatch ic r1 prev s)" and
    b: "(m2, c2) \<in> set (rmatch ic r2 (last_chr prev m1) (drop (length m1) s))" and
    c: "c = c2 @ c1"
    by auto
  from Seq.IH(1) [OF a] Seq.IH(2) [OF b] Seq.prems(2) c show ?case by auto
next
  case (Opt r)
  from Opt.prems(1) consider "(m, c) \<in> set (rmatch ic r prev s)" | "c = []" by auto
  then show ?case
  proof cases
    case 1
    from Opt.IH [OF 1] Opt.prems(2) show ?thesis by simp
  next
    case 2
    then show ?thesis by simp
  qed
next
  case (Alt r1 r2)
  from Alt.prems(1) consider "(m, c) \<in> set (rmatch ic r1 prev s)"
    | "(m, c) \<in> set (rmatch ic r2 prev s)" by auto
  then show ?case
  proof cases
    case 1
    from Alt.IH(1) [OF 1] Alt.prems(2) show ?thesis by simp
  next
    case 2
    from Alt.IH(2) [OF 2] Alt.prems(2) show ?thesis by simp
  qed
qed (auto split: if_splits)


lemma finditer_rmatch:
  "(k, m, c) \<in> set (finditer ic r prev s adv) \<Longrightarrow>
     \<exists>prev' s'. (m, c) \<in> set (rmatch ic r prev' s')"
proof (induction ic r prev s adv rule: finditer.induct)
  case (1 ic r prev s adv)
  show ?case
  proof (cases "scan ic r prev s adv")
    case None
    with "1.prems" show ?thesis by (simp add: finditer.simps)
  next
    case (Some x)
    obtain k0 m0 c0 where x: "x = (k0, m0, c0)" by (cases x)
    from "1.prems" Some x consider "(k, m, c) = (k0, m0, c0)"
      | "(k, m, c) \<in> set (finditer ic r (last_chr prev (take (k0 + length m0) s))
                        (drop (k0 + length m0) s) (m0 = []))"
      by (subst (asm) finditer.simps) auto
    then show ?thesis
    proof cases
      case 1
      with scan_Some [of ic r prev s adv k0 m0 c0] Some x show ?thesis by blast
    next
      case 2
      from "1.IH" [OF Some x [symmetric] refl 2] show ?thesis .
    qed
  qed
qed

lemma ints_digit_strings:
  "\<forall>x \<in> set t. x = [] \<or> digit_string x \<Longrightarrow> \<exists>years. ints t = Inr years"
proof (induction t)
  case Nil
  then show ?case by simp
next
  case (Cons x t)
  then obtain years where y: "ints t = Inr years" by auto
  from Cons.prems have "x = [] \<or> digit_string x" by simp
  then show ?case
    using y by (auto simp: isdigit_def digit_string_def py_int_def)
qed

lemma findall_tuple_digits:
  assumes "findall ic r txt = Tuple t # rest" and "digit_groups r"
  shows "\<forall>x \<in> set t. x = [] \<or> digit_string x"
proof -
  from assms(1) obtain e es where fi: "finditer ic r None txt False = e # es"
    and t: "found_of r e = Tuple t"
    by (auto simp: findall_def)
  obtain k m c where e: "e = (k, m, c)" by (cases e)
  from fi e have "(k, m, c) \<in> set (finditer ic r None txt False)" by simp
  from finditer_rmatch [OF this] obtain prev' s' where "(m, c) \<in> set (rmatch ic r prev' s')"
    by blast
  from rmatch_digit_caps [OF this assms(2)] have caps: "\<forall>(i, g) \<in> set c. digit_string g" .
  have "group_text c i = [] \<or> digit_string (group_text c i)" for i
  proof (cases "map_of c i")
    case None
    then show ?thesis by (simp add: group_text_def)
  next
    case (Some g)
    then have "(i, g) \<in> set c" by (rule map_of_SomeD)
    with caps Some show ?thesis by (auto simp: group_text_def)
  qed
  moreover from t e have "t = map (group_text c) [1 ..< Suc (ngroups r)]"
    by (auto simp: found_of_def split: if_splits)
  ultimately show ?thesis by auto
qed

lemma experience_loop_returns:
  "\<forall>p \<in> set ps. digit_groups p \<Longrightarrow> \<exists>years. experience_loop ps txt = Inr years"
proof (induction ps)
  case Nil
  then show ?case by simp
next
  case (Cons p ps)
  then obtain y where ih: "experience_loop ps txt = Inr y" by auto
  show ?case
  proof (cases "findall True p txt")
    case Nil
    with ih show ?thesis by simp
  next
    case (Cons f fs)
    show ?thesis
    proof (cases f)
      case (Str m)
      with Cons show ?thesis by simp
    next
      case (Tuple t)
      with Cons have "findall True p txt = Tuple t # fs" by simp
      from findall_tuple_digits [OF this] Cons.prems have "\<forall>x \<in> set t. x = [] \<or> digit_string x"
        by simp
      from ints_digit_strings [OF this] obtain years where "ints t = Inr years" ..
      with Cons Tuple ih show ?thesis
        by (auto split: list.splits)
    qed
  qed
qed

lemma experience_patterns_digit_groups: "\<forall>p \<in> set experience_patterns. digit_groups p"
  by (simp add: experience_patterns_def digits_def spaces_def years_opt_def)

lemma extract_years_returns: "\<exists>years. extract_years_of_experience txt = Inr years"
  unfolding extract_years_of_experience_def
  using experience_patterns_digit_groups by (rule experience_loop_returns)




section \<open>The summary\<close>

lemma sentence_end_punct: "atom_ok False sentence_end c = sentence_punct c"
  by (auto simp: sentence_end_def sentence_punct_def)

lemma rmatch_Plus_hd:
  assumes "P = atom_ok ic a"
  shows "rmatch ic (Plus a) prev s =
     (if takeWhile P s = [] then []
      else (takeWhile P s, []) # map (\<lambda>k. (take k s, [])) (rev [1 ..< length (takeWhile P s)]))"
proof (cases "takeWhile P s = []")
  case True
  then show ?thesis using assms by simp
next
  case False
  then have n: "1 \<le> length (takeWhile P s)" by (cases "takeWhile P s") auto
  then have "[1 ..< Suc (length (takeWhile P s))] = [1 ..< length (takeWhile P s)] @ [length (takeWhile P s)]"
    by simp
  moreover have "take (length (takeWhile P s)) s = takeWhile P s"
    by (metis append_eq_conv_conj takeWhile_dropWhile_id)
  ultimately show ?thesis using False assms by simp
qed

lemma scan_Plus:
  assumes P: "P = atom_ok ic a"
  shows "scan ic (Plus a) prev s False =
     (case dropWhile (\<lambda>c. \<not> P c) s of
        [] \<Rightarrow> None
      | p # rest \<Rightarrow> Some (length (takeWhile (\<lambda>c. \<not> P c) s), takeWhile P (p # rest), []))"
proof (induction s arbitrary: prev)
  case Nil
  show ?case by simp
next
  case (Cons x xs)
  show ?case
  proof (cases "P x")
    case True
    then show ?thesis
      by (simp add: rmatch_Plus_hd [OF P] del: rmatch.simps)
  next
    case False
    then have "rmatch ic (Plus a) prev (x # xs) = []"
      by (simp add: rmatch_Plus_hd [OF P] del: rmatch.simps)
    then have step: "scan ic (Plus a) prev (x # xs) False =
        (case scan ic (Plus a) (Some x) xs False of
           None \<Rightarrow> None
         | Some (k, m, c) \<Rightarrow> Some (Suc k, m, c))"
      by (simp del: rmatch.simps)
    show ?thesis
    proof (cases "dropWhile (\<lambda>c. \<not> P c) xs")
      case Nil
      with False step Cons.IH [of "Some x"] show ?thesis
        by (simp del: rmatch.simps scan.simps dropWhile_eq_Nil_conv)
    next
      case (Cons p rest)
      with False step Cons.IH [of "Some x"] show ?thesis
        by (simp del: rmatch.simps scan.simps)
    qed
  qed
qed


lemma take_length_takeWhile: "take (length (takeWhile Q s)) s = takeWhile Q s"
  by (metis append_eq_conv_conj takeWhile_dropWhile_id)

lemma drop_length_takeWhile: "drop (length (takeWhile Q s)) s = dropWhile Q s"
  by (metis append_eq_conv_conj takeWhile_dropWhile_id)

lemma pieces_finditer_Plus:
  assumes P: "atom_ok False sentence_end = P"
  shows "pieces s (finditer False (Plus sentence_end) prev s False) = split_sentences s"
proof (induction s arbitrary: prev rule: length_induct)
  case (1 s)
  let ?Q = "\<lambda>c. \<not> sentence_punct c"
  have PQ: "P = sentence_punct" using P sentence_end_punct by auto
  show ?case
  proof (cases "dropWhile ?Q s")
    case Nil
    then have "scan False (Plus sentence_end) prev s False = None"
      by (simp add: scan_Plus [OF P [symmetric]] PQ del: dropWhile_eq_Nil_conv)
    then have "finditer False (Plus sentence_end) prev s False = []"
      by (simp add: finditer.simps)
    with Nil show ?thesis
      by (simp add: split_sentences.simps del: dropWhile_eq_Nil_conv)
  next
    case (Cons p rest)
    then have p: "sentence_punct p" by (metis hd_dropWhile list.sel(1) list.distinct(1))
    define k where "k = length (takeWhile ?Q s)"
    define m where "m = takeWhile sentence_punct (p # rest)"
    have sc: "scan False (Plus sentence_end) prev s False = Some (k, m, [])"
      using Cons by (simp add: scan_Plus [OF P [symmetric]] PQ k_def m_def)
    have mne: "m \<noteq> []" using p by (simp add: m_def)
    have dr: "drop (k + length m) s = dropWhile sentence_punct rest"
    proof -
      have "drop (k + length m) s = drop (length m) (drop k s)"
        by (simp add: add.commute)
      also have "\<dots> = drop (length m) (p # rest)"
        using Cons by (simp add: drop_length_takeWhile k_def)
      also have "\<dots> = dropWhile sentence_punct (p # rest)"
        unfolding m_def by (rule drop_length_takeWhile)
      finally show ?thesis using p by simp
    qed
    have tk: "take k s = takeWhile ?Q s"
      unfolding k_def by (rule take_length_takeWhile)
    have shorter: "length (dropWhile sentence_punct rest) < length s"
    proof -
      have "length (dropWhile sentence_punct rest) \<le> length rest" by (rule length_dropWhile_le)
      also have "\<dots> < length (dropWhile ?Q s)" using Cons by simp
      also have "\<dots> \<le> length s" by (rule length_dropWhile_le)
      finally show ?thesis .
    qed
    have "finditer False (Plus sentence_end) prev s False =
        (k, m, []) # finditer False (Plus sentence_end)
           (last_chr prev (take (k + length m) s)) (dropWhile sentence_punct rest) False"
      by (subst finditer.simps) (simp add: sc dr mne)
    then have "pieces s (finditer False (Plus sentence_end) prev s False) =
        takeWhile ?Q s # pieces (dropWhile sentence_punct rest)
          (finditer False (Plus sentence_end) (last_chr prev (take (k + length m) s))
             (dropWhile sentence_punct rest) False)"
      by (simp add: tk dr)
    also have "\<dots> = takeWhile ?Q s # split_sentences (dropWhile sentence_punct rest)"
      using "1.IH" shorter by simp
    also have "\<dots> = split_sentences s"
      using Cons by (simp add: split_sentences.simps [of s])
    finally show ?thesis .
  qed
qed

lemma re_split_sentences: "re_split False (Plus sentence_end) s = split_sentences s"
  unfolding re_split_def by (rule pieces_finditer_Plus) (rule refl)

lemma summary_loop_filter:
  "summary_loop sentences parts =
     parts @ map strip (filter (\<lambda>fragment. 20 < length (strip fragment)) sentences)"
  by (induction sentences arbitrary: parts) simp_all

text \<open>
  Claim C4 says that the fragments of the whole text are filtered and that the fallback
  is used only when no fragment of the text qualifies. The loop runs over
  \<open>sentences[:3]\<close>: here the only fragment long enough is the fourth, and the
  templated sentence is returned.
\<close>

theorem summary_counterexample:
  "re_split False (Plus sentence_end)
     ''Hi. We hire. Now. Our team builds search tools for recruiters'' =
     [''Hi'', '' We hire'', '' Now'', '' Our team builds search tools for recruiters''] \<and>
   20 < length (strip '' Our team builds search tools for recruiters'') \<and>
   generate_summary ''Hi. We hire. Now. Our team builds search tools for recruiters''
     ''Engineer'' [] = ''Looking for a Engineer''"
  by code_simp

text \<open>
  Claim C4, amended. \<open>generate_summary\<close> cuts the text at the runs of \<open>.\<close>, \<open>!\<close>
  and \<open>?\<close>, looks at the first three fragments only, keeps those whose stripped
  length exceeds 20 and joins the first two kept, stripped, with \<open>. \<close>; when none of
  the first three qualifies it falls back to the sentence built from the title; when
  the skill list is not empty the first three skills are appended.
\<close>

theorem summary_first_three_fragments:
  "generate_summary text job_title skills = spec_summary text job_title skills"
  by (simp add: generate_summary_def spec_summary_def re_split_sentences summary_loop_filter
      Let_def)


section \<open>The sample posting\<close>

lemma lower_join: "lower (join sep ls) = join (lower sep) (map lower ls)"
  by (induction sep ls rule: join.induct) (simp_all add: lower_def)

lemma prefix_before_sep:
  "n \<notin> set kw \<Longrightarrow> prefix kw (a @ n # b) \<longleftrightarrow> prefix kw a"
  by (auto simp: prefix_append prefix_Cons)

lemma contains_across_sep:
  assumes "n \<notin> set kw" and "kw \<noteq> []"
  shows "contains kw (a @ n # b) \<longleftrightarrow> contains kw a \<or> contains kw b"
  using assms
proof (induction a)
  case Nil
  then show ?case by (auto simp: prefix_Cons)
next
  case (Cons x a)
  from prefix_before_sep [OF Cons.prems(1), of "x # a" b]
  have "prefix kw (x # a @ n # b) \<longleftrightarrow> prefix kw (x # a)" by simp
  with Cons show ?case by auto
qed

lemma contains_join:
  assumes "n \<notin> set kw" and "kw \<noteq> []"
  shows "contains kw (join [n] ls) \<longleftrightarrow> list_ex (contains kw) ls"
proof (induction "[n]" ls rule: join.induct)
  case 1
  from assms(2) show ?case by simp
next
  case (2 x)
  show ?case by simp
next
  case (3 x y ys)
  then show ?case using contains_across_sep [OF assms] by simp
qed

lemma strip_decomp:
  "\<exists>a b. s = a @ strip s @ b \<and> list_all is_space a \<and> list_all is_space b"
proof -
  let ?u = "dropWhile is_space s"
  have "s = takeWhile is_space s @ ?u" by simp
  moreover have "rev ?u = takeWhile is_space (rev ?u) @ dropWhile is_space (rev ?u)" by simp
  then have "?u = strip s @ rev (takeWhile is_space (rev ?u))"
    unfolding strip_def by (metis rev_append rev_rev_ident)
  moreover have "list_all is_space (takeWhile is_space s)"
    "list_all is_space (rev (takeWhile is_space (rev ?u)))"
    by (auto simp: list_all_iff dest: set_takeWhileD)
  ultimately show ?thesis by metis
qed

lemma strip_keeps: "c \<in> set s \<Longrightarrow> \<not> is_space c \<Longrightarrow> c \<in> set (strip s)"
proof -
  assume c: "c \<in> set s" "\<not> is_space c"
  from strip_decomp [of s] obtain a b where s: "s = a @ strip s @ b"
    and ab: "list_all is_space a" "list_all is_space b" by blast
  from c(1) have "c \<in> set (a @ strip s @ b)" using s by simp
  with ab c(2) show ?thesis by (auto simp: list_all_iff)
qed

lemma set_join: "l \<in> set ls \<Longrightarrow> set l \<subseteq> set (join sep ls)"
  by (induction sep ls rule: join.induct) auto

lemma parse_seniority:
  assumes "job_description \<noteq> []" and "strip job_description \<noteq> placeholder"
  shows "\<exists>d. parse enum job_description = Inr d \<and>
     map_of d ''seniorityLevel'' = Some (JStr (extract_seniority_level job_description))"
proof -
  obtain years where y: "extract_years_of_experience job_description = Inr years"
    using extract_years_returns by blast
  obtain location where l: "extract_location job_description = Inr location"
    using extract_location_returns by blast
  from assms y l show ?thesis
    by (simp add: parse_def Let_def)
qed

text \<open>
  Claim C1 expects \<open>seniorityLevel\<close> to be \<open>senior\<close> for the sample posting of
  \<open>main\<close>. The posting contains \<open>Software Engineer\<close>, a keyword of the level \<open>mid\<close>,
  and no keyword of \<open>junior\<close>; \<open>mid\<close> is tried before \<open>senior\<close>, so the parser
  answers \<open>mid\<close>.
\<close>

theorem sample_seniority_is_mid:
  "extract_seniority_level sample_job_description = ''mid'' \<and>
   (\<exists>d. parse enum sample_job_description = Inr d \<and>
        map_of d ''seniorityLevel'' = Some (JStr ''mid''))"
proof -
  have low: "lower sample_job_description = join [CHR 0x0A] (map lower sample_lines)"
  proof -
    have "lower nl = [CHR 0x0A]" by code_simp
    then show ?thesis by (simp add: sample_job_description_def lower_join nl_def)
  qed
  have absent: "\<not> list_ex (\<lambda>keyword. list_ex (contains keyword) (map lower sample_lines))
      [''junior'', ''entry'', ''associate'', ''graduate'', ''intern'']"
    by code_simp
  have present: "list_ex (contains ''software engineer'') (map lower sample_lines)"
    by code_simp
  have junior: "\<not> list_ex (\<lambda>keyword. contains keyword (lower sample_job_description))
      [''junior'', ''entry'', ''associate'', ''graduate'', ''intern'']"
    using absent unfolding low by (simp add: contains_join)
  have mid: "contains ''software engineer'' (lower sample_job_description)"
    using present unfolding low by (simp add: contains_join)
  have sen: "extract_seniority_level sample_job_description = ''mid''"
    using junior mid by (simp add: extract_seniority_level_def seniority_keywords_def)
  have S: "CHR ''S'' \<in> set sample_job_description"
    using set_join [of "sample_lines ! 1" sample_lines nl]
    by (auto simp: sample_job_description_def sample_lines_def)
  have "\<not> is_space CHR ''S''" by code_simp
  with S have "CHR ''S'' \<in> set (strip sample_job_description)" by (rule strip_keeps)
  then have a: "strip sample_job_description \<noteq> placeholder" by (auto simp: placeholder_def)
  from S have b: "sample_job_description \<noteq> []" by auto
  from parse_seniority [OF b a, of enum] sen show ?thesis by simp
qed

end
